theory Spec2Isabelle
  imports Main "HOL-Library.Sublist" "HOL-Library.AList"
begin

section \<open>Python strings\<close>

text \<open>
  A Python \<open>str\<close> is a sequence of Unicode code points: a list of natural numbers.
  \<open>py\<close> turns a literal of the source into such a list.
\<close>

type_synonym pystr = "nat list"

definition py :: "string \<Rightarrow> pystr" where
  "py s = map of_char s"

text \<open>
  \<open>str.lower()\<close>, \<open>str.upper()\<close> and \<open>str.casefold()\<close> follow the Unicode tables of the
  Python runtime, which are no part of this repository: every function below that calls
  one of them takes it as its argument \<open>lower\<close>, \<open>upper\<close> or \<open>casefold\<close>, and the theorems
  hold for every such mapping (it may change the length of a string).  On a string of
  ASCII characters all three tables only exchange \<open>A\<close>..\<open>Z\<close> and \<open>a\<close>..\<open>z\<close>; these are the
  mappings used where a concrete ASCII input is evaluated.
\<close>

definition ascii_lower :: "pystr \<Rightarrow> pystr" where
  "ascii_lower s = map (\<lambda>n. if 65 \<le> n \<and> n \<le> 90 then n + 32 else n) s"

definition ascii_upper :: "pystr \<Rightarrow> pystr" where
  "ascii_upper s = map (\<lambda>n. if 97 \<le> n \<and> n \<le> 122 then n - 32 else n) s"

text \<open>
  \<open>xs[i:j]\<close> for integers \<open>i\<close>, \<open>j\<close>: a negative index counts from the end, and both
  ends are clamped to the list.
\<close>

definition py_slice :: "'a list \<Rightarrow> int \<Rightarrow> int \<Rightarrow> 'a list" where
  "py_slice xs i j =
     (let n = int (length xs);
          i' = (if i < 0 then max 0 (i + n) else min i n);
          j' = (if j < 0 then max 0 (j + n) else min j n)
      in take (nat (j' - i')) (drop (nat i') xs))"

text \<open>
  \<open>text.find(needle, start)\<close> for \<open>start \<ge> 0\<close>: the lowest index at or after \<open>start\<close>
  where \<open>needle\<close> occurs, or \<open>-1\<close>.
\<close>

fun find_scan :: "pystr \<Rightarrow> pystr \<Rightarrow> nat \<Rightarrow> int" where
  "find_scan needle [] i = (if needle = [] then int i else -1)"
| "find_scan needle (c # cs) i =
     (if prefix needle (c # cs) then int i else find_scan needle cs (Suc i))"

definition py_find :: "pystr \<Rightarrow> pystr \<Rightarrow> nat \<Rightarrow> int" where
  "py_find text needle start =
     (if length text < start then -1 else find_scan needle (drop start text) start)"

section \<open>Alignment entries and span location\<close>

text \<open>The pairing marker of an alignment entry \<open>source****target\<close>.\<close>

definition marker :: pystr where
  "marker = py ''****''"

text \<open>\<open>marker in s\<close>.\<close>

definition has_marker :: "pystr \<Rightarrow> bool" where
  "has_marker s = sublist marker s"

text \<open>\<open>s.split(marker, 1)\<close> when the marker occurs in \<open>s\<close>: the text before its first
  occurrence and the text after it.\<close>

fun split_first :: "pystr \<Rightarrow> pystr \<times> pystr" where
  "split_first [] = ([], [])"
| "split_first (c # cs) =
     (if prefix marker (c # cs) then ([], drop (length marker) (c # cs))
      else (let (a, b) = split_first cs in (c # a, b)))"

text \<open>\<open>_split_pair\<close>.\<close>

definition split_pair :: "pystr \<Rightarrow> pystr \<times> pystr" where
  "split_pair s = (if has_marker s then split_first s else (s, []))"

text \<open>\<open>_find_from\<close>: forward from \<open>start\<close>, then forward in the lower-cased text, then
  anywhere in the text.\<close>

definition find_from :: "(pystr \<Rightarrow> pystr) \<Rightarrow> pystr \<Rightarrow> pystr \<Rightarrow> nat \<Rightarrow> int" where
  "find_from lower text needle start =
     (let pos = py_find text needle start in
      if pos \<noteq> -1 then pos
      else
        (let pos2 = py_find (lower text) (lower needle) start in
         if pos2 \<noteq> -1 then pos2 else py_find text needle 0))"

record located_span =
  ls_style :: pystr
  ls_source :: pystr
  ls_translated_text :: pystr
  ls_offset :: int
  ls_length :: nat

definition unmatched_span :: "pystr \<Rightarrow> pystr \<Rightarrow> located_span" where
  "unmatched_span style_name src =
     \<lparr>ls_style = style_name, ls_source = src, ls_translated_text = [],
      ls_offset = -1, ls_length = 0\<rparr>"

text \<open>
  The inner loop of \<open>transform_alignment_to_styles\<close> over the entries of one bucket:
  the spans it appends to \<open>out\<close>, with the bucket's cursor passed along.
\<close>

fun transform_bucket ::
  "(pystr \<Rightarrow> pystr) \<Rightarrow> pystr \<Rightarrow> pystr \<Rightarrow> bool \<Rightarrow> pystr list \<Rightarrow> nat \<Rightarrow> located_span list" where
  "transform_bucket lower style_name translated_text keep_unmatched [] cursor = []"
| "transform_bucket lower style_name translated_text keep_unmatched (item # arr) cursor =
     (let src = fst (split_pair item); tgt = snd (split_pair item) in
      if tgt \<noteq> [] then
        (let pos = find_from lower translated_text tgt cursor in
         if pos \<noteq> -1 then
           \<lparr>ls_style = style_name, ls_source = src,
            ls_translated_text = py_slice translated_text pos (pos + int (length tgt)),
            ls_offset = pos, ls_length = length tgt\<rparr>
           # transform_bucket lower style_name translated_text keep_unmatched arr
               (nat (pos + int (length tgt)))
         else if keep_unmatched then
           unmatched_span style_name src
           # transform_bucket lower style_name translated_text keep_unmatched arr cursor
         else transform_bucket lower style_name translated_text keep_unmatched arr cursor)
      else if keep_unmatched then
        unmatched_span style_name src
        # transform_bucket lower style_name translated_text keep_unmatched arr cursor
      else transform_bucket lower style_name translated_text keep_unmatched arr cursor)"

text \<open>\<open>d.get(key, []) or []\<close> on a dictionary of lists.\<close>

definition get_list :: "(pystr \<rightharpoonup> 'a list) \<Rightarrow> pystr \<Rightarrow> 'a list" where
  "get_list d key = (case d key of None \<Rightarrow> [] | Some xs \<Rightarrow> xs)"

text \<open>The buckets in the order the outer loop visits them, each with its style name.\<close>

definition style_buckets :: "(pystr \<times> pystr) list" where
  "style_buckets =
     [(py ''bold'', py ''BOLD''), (py ''italics'', py ''ITALIC''),
      (py ''underline'', py ''UNDERLINE'')]"

definition transform_alignment_to_styles ::
  "(pystr \<Rightarrow> pystr) \<Rightarrow> (pystr \<rightharpoonup> pystr list) \<Rightarrow> pystr \<Rightarrow> bool \<Rightarrow> located_span list" where
  "transform_alignment_to_styles lower alignment translated_text keep_unmatched =
     concat (map (\<lambda>(key, style_name).
         transform_bucket lower style_name translated_text keep_unmatched
           (get_list alignment key) 0)
       style_buckets)"

section \<open>Style spans and term extraction\<close>

text \<open>
  \<open>_normalize_style_name\<close>.  The last test of the source is \<open>s in ("UNDERLINED")\<close>: the
  parentheses make no tuple, so it is a substring test on the string \<open>UNDERLINED\<close>.
\<close>

definition normalize_style_name :: "(pystr \<Rightarrow> pystr) \<Rightarrow> pystr \<Rightarrow> pystr" where
  "normalize_style_name upper name =
     (let s = upper name;
          s = (if s \<in> set [py ''BOLDED''] then py ''BOLD'' else s);
          s = (if s \<in> set [py ''ITALICS'', py ''ITALICIZED''] then py ''ITALIC'' else s);
          s = (if sublist s (py ''UNDERLINED'') then py ''UNDERLINE'' else s)
      in s)"

text \<open>
  A style entry as \<open>_parse_styles\<close> builds it and \<open>extract_words_by_style\<close> reads it: a
  dictionary with an integer \<open>offset\<close>, an integer \<open>length\<close> and a string \<open>style\<close>.  On such
  entries no statement of the first loop of \<open>extract_words_by_style\<close> raises.
\<close>

record style_span =
  sp_offset :: int
  sp_length :: int
  sp_style :: pystr

text \<open>The payload \<open>{"value": ..., "styles": ...}\<close>; \<open>None\<close> is a missing or empty field.\<close>

record payload =
  p_value :: "pystr option"
  p_styles :: "style_span list option"

text \<open>\<open>payload.get("value") or ""\<close> and \<open>payload.get("styles") or []\<close>.\<close>

definition source_of :: "payload \<Rightarrow> pystr" where
  "source_of payload = (case p_value payload of None \<Rightarrow> [] | Some v \<Rightarrow> v)"

definition styles_of :: "payload \<Rightarrow> style_span list" where
  "styles_of payload = (case p_styles payload of None \<Rightarrow> [] | Some l \<Rightarrow> l)"

definition style_names :: "pystr list" where
  "style_names = [py ''BOLD'', py ''ITALIC'', py ''UNDERLINE'']"

text \<open>
  The body of the first loop for one span: the item \<open>(style, si, chunk)\<close> it appends, or
  \<open>None\<close> when it continues without appending.
\<close>

definition span_item ::
  "(pystr \<Rightarrow> pystr) \<Rightarrow> pystr \<Rightarrow> style_span \<Rightarrow> (pystr \<times> int \<times> pystr) option" where
  "span_item upper src s =
     (let start = sp_offset s; len = sp_length s in
      if len \<le> 0 then None
      else
        (let end = start + len; style = normalize_style_name upper (sp_style s) in
         if style \<notin> set style_names then None
         else
           (let chunk = py_slice src start end in
            if chunk = [] then None else Some (style, start, chunk))))"

text \<open>The dictionary \<open>{"BOLD": "bold", "ITALIC": "italics", "UNDERLINE": "underline"}\<close>,
  read at a style that passed the test of the first loop.\<close>

definition style_key :: "pystr \<Rightarrow> pystr" where
  "style_key style =
     (if style = py ''BOLD'' then py ''bold''
      else if style = py ''ITALIC'' then py ''italics''
      else py ''underline'')"

text \<open>The second loop: \<open>out\<close> and \<open>seen\<close> are passed along.\<close>

fun bucket_loop ::
  "(pystr \<Rightarrow> pystr) \<Rightarrow> bool \<Rightarrow> (pystr \<times> int \<times> pystr) list \<Rightarrow> (pystr \<rightharpoonup> pystr list) \<Rightarrow>
   (pystr \<Rightarrow> pystr set) \<Rightarrow> (pystr \<rightharpoonup> pystr list)" where
  "bucket_loop casefold dedupe [] out seen = out"
| "bucket_loop casefold dedupe ((style, pos, chunk) # rest) out seen =
     (let key = style_key style in
      if dedupe then
        (let norm = casefold chunk in
         if norm \<in> seen key then bucket_loop casefold dedupe rest out seen
         else bucket_loop casefold dedupe rest (out(key \<mapsto> get_list out key @ [chunk]))
                (seen(key := insert norm (seen key))))
      else bucket_loop casefold dedupe rest (out(key \<mapsto> get_list out key @ [chunk])) seen)"

text \<open>\<open>extract_words_by_style\<close>; the list sort of Python is stable, as \<open>sort_key\<close> is.  The
  source never reads its argument \<open>snap_to_word\<close>.\<close>

definition extract_words_by_style ::
  "(pystr \<Rightarrow> pystr) \<Rightarrow> (pystr \<Rightarrow> pystr) \<Rightarrow> payload \<Rightarrow> bool \<Rightarrow> bool \<Rightarrow> (pystr \<rightharpoonup> pystr list)" where
  "extract_words_by_style upper casefold payload snap_to_word dedupe =
     (let src = source_of payload;
          spans = styles_of payload;
          items = List.map_filter (span_item upper src) spans;
          items = sort_key (\<lambda>t. fst (snd t)) items
      in bucket_loop casefold dedupe items
           [py ''bold'' \<mapsto> [], py ''italics'' \<mapsto> [], py ''underline'' \<mapsto> []]
           (\<lambda>k. {}))"

section \<open>Positional pairing\<close>

text \<open>The body of the loop of \<open>_pair_positionally_if_needed\<close> for one key: the value it
  stores in \<open>fixed[key]\<close>.\<close>

definition pair_bucket :: "pystr list \<Rightarrow> pystr list \<Rightarrow> pystr list" where
  "pair_bucket items srcs =
     (let has_pairs = list_ex has_marker items in
      if items = [] then []
      else if \<not> has_pairs then
        (let n = min (length items) (length srcs) in
         [srcs ! i @ marker @ items ! i. i \<leftarrow> [0..<n], items ! i \<noteq> []])
      else items)"

definition pair_positionally_if_needed ::
  "(pystr \<rightharpoonup> pystr list) \<Rightarrow> (pystr \<rightharpoonup> pystr list) \<Rightarrow> (pystr \<rightharpoonup> pystr list)" where
  "pair_positionally_if_needed alignment source_terms =
     [py ''bold'' \<mapsto>
        pair_bucket (get_list alignment (py ''bold'')) (get_list source_terms (py ''bold'')),
      py ''italics'' \<mapsto>
        pair_bucket (get_list alignment (py ''italics'')) (get_list source_terms (py ''italics'')),
      py ''underline'' \<mapsto>
        pair_bucket (get_list alignment (py ''underline''))
          (get_list source_terms (py ''underline''))]"

section \<open>Placement predicates\<close>

text \<open>The end of a located span: its offset plus its length.\<close>

definition span_end :: "located_span \<Rightarrow> nat" where
  "span_end s = nat (ls_offset s + int (ls_length s))"

text \<open>The located spans of one style in an output list.\<close>

definition located_of_style :: "pystr \<Rightarrow> located_span list \<Rightarrow> located_span list" where
  "located_of_style st out = filter (\<lambda>s. ls_style s = st \<and> ls_offset s \<noteq> -1) out"

text \<open>Left-to-right and non-overlapping: every span starts at or after the end of the
  span before it.\<close>

fun left_to_right :: "located_span list \<Rightarrow> bool" where
  "left_to_right [] = True"
| "left_to_right [s] = True"
| "left_to_right (s # s' # ss) =
     (ls_offset s + int (ls_length s) \<le> ls_offset s' \<and> left_to_right (s' # ss))"

text \<open>
  The target of an entry occurs at or after position \<open>c\<close>: in the text as it is, or in
  the lower-cased text against the lower-cased target.
\<close>

definition forward_found :: "(pystr \<Rightarrow> pystr) \<Rightarrow> pystr \<Rightarrow> pystr \<Rightarrow> nat \<Rightarrow> bool" where
  "forward_found lower text tgt c =
     (py_find text tgt c \<noteq> -1 \<or> py_find (lower text) (lower tgt) c \<noteq> -1)"

text \<open>
  The span \<open>s\<close> is the one the loop emits for the entry \<open>item\<close> when it is located with
  the cursor at \<open>c\<close>: the entry's source, the length of the entry's target, the position
  \<open>_find_from\<close> returns for the target from \<open>c\<close>, and the slice of the text there.
\<close>

definition placed_from ::
  "(pystr \<Rightarrow> pystr) \<Rightarrow> pystr \<Rightarrow> nat \<Rightarrow> pystr \<Rightarrow> located_span \<Rightarrow> bool" where
  "placed_from lower text c item s =
     (snd (split_pair item) \<noteq> [] \<and>
      ls_source s = fst (split_pair item) \<and>
      ls_length s = length (snd (split_pair item)) \<and>
      ls_offset s = find_from lower text (snd (split_pair item)) c \<and>
      ls_translated_text s =
        py_slice text (ls_offset s) (ls_offset s + int (length (snd (split_pair item)))))"

fun placed_chain ::
  "(pystr \<Rightarrow> pystr) \<Rightarrow> pystr \<Rightarrow> pystr list \<Rightarrow> nat \<Rightarrow> located_span list \<Rightarrow> bool" where
  "placed_chain lower text items c [] = True"
| "placed_chain lower text items c (s # ss) =
     (list_ex (\<lambda>item. placed_from lower text c item s) items \<and>
      placed_chain lower text items (span_end s) ss)"

section \<open>Extraction predicates\<close>

text \<open>The chunk expression \<open>src[si:sj]\<close> of a span and the bucket key of its style.\<close>

definition span_chunk :: "pystr \<Rightarrow> style_span \<Rightarrow> pystr" where
  "span_chunk src s = py_slice src (sp_offset s) (sp_offset s + sp_length s)"

definition span_key :: "(pystr \<Rightarrow> pystr) \<Rightarrow> style_span \<Rightarrow> pystr" where
  "span_key upper s = style_key (normalize_style_name upper (sp_style s))"

text \<open>What deduplication keeps of a list of chunks: each chunk whose case-folded form
  has not been seen before it.\<close>

fun keep_first :: "(pystr \<Rightarrow> pystr) \<Rightarrow> pystr set \<Rightarrow> pystr list \<Rightarrow> pystr list" where
  "keep_first casefold seen [] = []"
| "keep_first casefold seen (t # ts) =
     (if casefold t \<in> seen then keep_first casefold seen ts
      else t # keep_first casefold (insert (casefold t) seen) ts)"

section \<open>String search\<close>

lemma find_scan_found:
  "find_scan needle xs i \<noteq> -1 \<Longrightarrow>
     \<exists>k. find_scan needle xs i = int (i + k) \<and> k + length needle \<le> length xs \<and>
         take (length needle) (drop k xs) = needle"
proof (induction xs arbitrary: i)
  case Nil
  then show ?case by (auto split: if_splits)
next
  case (Cons c cs)
  show ?case
  proof (cases "prefix needle (c # cs)")
    case True
    then obtain r where "c # cs = needle @ r" by (auto simp: prefix_def)
    then have "length needle \<le> length (c # cs)" "take (length needle) (c # cs) = needle"
      by (metis length_append le_add1, metis append_eq_conv_conj)
    with True show ?thesis by (intro exI[of _ 0]) simp
  next
    case False
    with Cons.prems have "find_scan needle cs (Suc i) \<noteq> -1" by simp
    from Cons.IH[OF this] obtain k where
      k: "find_scan needle cs (Suc i) = int (Suc i + k)" "k + length needle \<le> length cs"
         "take (length needle) (drop k cs) = needle" by blast
    with False show ?thesis by (intro exI[of _ "Suc k"]) simp
  qed
qed

lemma find_scan_nonneg: "find_scan needle xs i \<noteq> -1 \<Longrightarrow> 0 \<le> find_scan needle xs i"
  using find_scan_found[of needle xs i] by auto

lemma find_scan_complete:
  "take (length needle) (drop k xs) = needle \<Longrightarrow> k + length needle \<le> length xs \<Longrightarrow>
     find_scan needle xs i \<noteq> -1"
proof (induction xs arbitrary: k i)
  case Nil
  then show ?case by simp
next
  case (Cons c cs)
  show ?case
  proof (cases "prefix needle (c # cs)")
    case True
    then show ?thesis by simp
  next
    case False
    have "k \<noteq> 0"
    proof
      assume "k = 0"
      with Cons.prems(1) have "prefix needle (c # cs)"
        by (metis drop0 take_is_prefix)
      with False show False ..
    qed
    then obtain k' where k': "k = Suc k'" by (cases k) auto
    with Cons.prems have "take (length needle) (drop k' cs) = needle"
      and "k' + length needle \<le> length cs" by simp_all
    from Cons.IH[OF this] have "find_scan needle cs (Suc i) \<noteq> -1" .
    with False show ?thesis by simp
  qed
qed

lemma py_find_found:
  assumes "py_find hay needle start \<noteq> -1"
  shows "int start \<le> py_find hay needle start"
    and "py_find hay needle start + int (length needle) \<le> int (length hay)"
    and "take (length needle) (drop (nat (py_find hay needle start)) hay) = needle"
    and "py_slice hay (py_find hay needle start)
           (py_find hay needle start + int (length needle)) = needle"
proof -
  from assms have le: "start \<le> length hay"
    and ne: "find_scan needle (drop start hay) start \<noteq> -1"
    by (auto simp: py_find_def split: if_splits)
  from find_scan_found[OF ne] obtain k where
    k: "find_scan needle (drop start hay) start = int (start + k)"
       "k + length needle \<le> length (drop start hay)"
       "take (length needle) (drop k (drop start hay)) = needle" by blast
  from le have pf: "py_find hay needle start = int (start + k)"
    using k(1) by (simp add: py_find_def)
  have n: "nat (int (start + k)) = start + k" by simp
  have d: "drop k (drop start hay) = drop (start + k) hay" by (simp add: add.commute)
  have b: "int (start + k) + int (length needle) \<le> int (length hay)"
    using k(2) le by simp
  show "int start \<le> py_find hay needle start" using pf by simp
  show "py_find hay needle start + int (length needle) \<le> int (length hay)"
    using pf b by simp
  show "take (length needle) (drop (nat (py_find hay needle start)) hay) = needle"
    unfolding pf n using k(3) d by simp
  show "py_slice hay (py_find hay needle start)
           (py_find hay needle start + int (length needle)) = needle"
    unfolding pf py_slice_def Let_def using k(3) b n d
    by (simp add: min_def del: of_nat_add)
qed

text \<open>An occurrence that the search from 0 finds at or after \<open>c\<close> is also found by the
  search from \<open>c\<close>.\<close>

lemma py_find_from_later:
  assumes "py_find hay needle 0 \<noteq> -1" and "int c \<le> py_find hay needle 0"
  shows "py_find hay needle c \<noteq> -1"
proof -
  define p where "p = nat (py_find hay needle 0)"
  from py_find_found(1)[OF assms(1)] have pp: "py_find hay needle 0 = int p"
    by (simp add: p_def)
  from py_find_found(2)[OF assms(1)] pp have fit: "p + length needle \<le> length hay"
    by simp
  from py_find_found(3)[OF assms(1)] have occ: "take (length needle) (drop p hay) = needle"
    by (simp add: p_def)
  from assms(2) pp have cp: "c \<le> p" by simp
  with fit have cl: "c \<le> length hay" by simp
  have "drop (p - c) (drop c hay) = drop p hay" using cp by simp
  with occ have o2: "take (length needle) (drop (p - c) (drop c hay)) = needle" by simp
  have f2: "(p - c) + length needle \<le> length (drop c hay)" using fit cp by simp
  from find_scan_complete[OF o2 f2] cl show ?thesis by (simp add: py_find_def)
qed

lemma find_from_forward:
  "forward_found lw hay tgt c \<Longrightarrow> int c \<le> find_from lw hay tgt c"
  using py_find_found(1)[of hay tgt c] py_find_found(1)[of "lw hay" "lw tgt" c]
  by (auto simp: forward_found_def find_from_def Let_def)

lemma find_from_fallback:
  assumes "\<not> forward_found lw hay tgt c"
  shows "find_from lw hay tgt c = py_find hay tgt 0"
  using assms by (simp add: forward_found_def find_from_def Let_def)

lemma find_from_fallback_before:
  assumes "\<not> forward_found lw hay tgt c" and "find_from lw hay tgt c \<noteq> -1"
  shows "find_from lw hay tgt c < int c"
proof (rule ccontr)
  assume "\<not> find_from lw hay tgt c < int c"
  with find_from_fallback[OF assms(1)] assms(2)
  have "py_find hay tgt 0 \<noteq> -1" "int c \<le> py_find hay tgt 0" by simp_all
  from py_find_from_later[OF this] assms(1) show False by (simp add: forward_found_def)
qed

lemma find_from_nonneg: "find_from lw hay tgt c \<noteq> -1 \<Longrightarrow> 0 \<le> find_from lw hay tgt c"
  using py_find_found(1)[of hay tgt c] py_find_found(1)[of "lw hay" "lw tgt" c]
    py_find_found(1)[of hay tgt 0]
  by (auto simp: find_from_def Let_def split: if_splits)

section \<open>Span location\<close>

lemma transform_bucket_chain:
  "set items \<subseteq> set items0 \<Longrightarrow>
   placed_chain lw hay items0 c
     (filter (\<lambda>s. ls_offset s \<noteq> -1) (transform_bucket lw st hay keep items c))"
proof (induction items arbitrary: c)
  case Nil
  show ?case by simp
next
  case (Cons item arr)
  from Cons.prems have mem: "item \<in> set items0" and sub: "set arr \<subseteq> set items0" by simp_all
  note IH = Cons.IH[OF sub]
  show ?case
  proof (cases "snd (split_pair item) \<noteq> [] \<and> find_from lw hay (snd (split_pair item)) c \<noteq> -1")
    case True
    let ?tgt = "snd (split_pair item)"
    let ?pos = "find_from lw hay ?tgt c"
    let ?s = "\<lparr>ls_style = st, ls_source = fst (split_pair item),
               ls_translated_text = py_slice hay ?pos (?pos + int (length ?tgt)),
               ls_offset = ?pos, ls_length = length ?tgt\<rparr>"
    have pl: "placed_from lw hay c item ?s"
      using True by (simp add: placed_from_def)
    have ex: "list_ex (\<lambda>item. placed_from lw hay c item ?s) items0"
      using pl mem by (auto simp: list_ex_iff)
    have eq: "filter (\<lambda>s. ls_offset s \<noteq> -1) (transform_bucket lw st hay keep (item # arr) c)
        = ?s # filter (\<lambda>s. ls_offset s \<noteq> -1)
                 (transform_bucket lw st hay keep arr (nat (?pos + int (length ?tgt))))"
      using True by (simp add: Let_def)
    show ?thesis
      unfolding eq using ex IH[of "nat (?pos + int (length ?tgt))"]
      by (simp add: span_end_def)
  next
    case False
    then have "filter (\<lambda>s. ls_offset s \<noteq> -1) (transform_bucket lw st hay keep (item # arr) c)
        = filter (\<lambda>s. ls_offset s \<noteq> -1) (transform_bucket lw st hay keep arr c)"
      by (auto simp: Let_def unmatched_span_def)
    with IH[of c] show ?thesis by simp
  qed
qed

lemma placed_chain_nth:
  "placed_chain lw hay items c L \<Longrightarrow> Suc i < length L \<Longrightarrow>
     list_ex (\<lambda>item. placed_from lw hay (span_end (L ! i)) item (L ! Suc i)) items"
proof (induction L arbitrary: c i)
  case Nil
  then show ?case by simp
next
  case (Cons s ss)
  show ?case
  proof (cases i)
    case 0
    with Cons.prems show ?thesis by (cases ss) auto
  next
    case (Suc j)
    with Cons.prems Cons.IH[of "span_end s" j] show ?thesis by simp
  qed
qed

lemma transform_bucket_style:
  "s \<in> set (transform_bucket lw st hay keep items c) \<Longrightarrow> ls_style s = st"
  by (induction items arbitrary: c) (auto simp: Let_def unmatched_span_def split: if_splits)

lemma transform_bucket_offset:
  "s \<in> set (transform_bucket lw st hay keep items c) \<Longrightarrow> ls_offset s \<noteq> -1 \<Longrightarrow>
     0 \<le> ls_offset s"
proof (induction items arbitrary: c)
  case Nil
  then show ?case by simp
next
  case (Cons item arr)
  then show ?case
    using find_from_nonneg[of lw hay "snd (split_pair item)" c]
    by (auto simp: Let_def unmatched_span_def split: if_splits)
qed

lemma located_of_style_same:
  "located_of_style st (transform_bucket lw st hay keep items c) =
     filter (\<lambda>s. ls_offset s \<noteq> -1) (transform_bucket lw st hay keep items c)"
  unfolding located_of_style_def
  by (rule filter_cong) (auto dest: transform_bucket_style)

lemma located_of_style_other:
  "st' \<noteq> st \<Longrightarrow> located_of_style st' (transform_bucket lw st hay keep items c) = []"
  unfolding located_of_style_def
  by (auto simp: filter_empty_conv dest: transform_bucket_style)

lemma located_of_style_append:
  "located_of_style st (xs @ ys) = located_of_style st xs @ located_of_style st ys"
  by (simp add: located_of_style_def)

lemma py_inj: "py a = py b \<longleftrightarrow> a = b"
  unfolding py_def by (simp add: inj_map_eq_map inj_on_def)

text \<open>The located spans of a style are those of its own bucket.\<close>

lemma located_of_style_bucket:
  assumes "(key, st) \<in> set style_buckets"
  shows "located_of_style st (transform_alignment_to_styles lw alignment hay keep) =
     filter (\<lambda>s. ls_offset s \<noteq> -1)
       (transform_bucket lw st hay keep (get_list alignment key) 0)"
proof -
  from assms consider "key = py ''bold''" "st = py ''BOLD''"
    | "key = py ''italics''" "st = py ''ITALIC''"
    | "key = py ''underline''" "st = py ''UNDERLINE''"
    by (auto simp: style_buckets_def)
  then show ?thesis
  proof cases
    case 1
    then show ?thesis
      by (simp add: transform_alignment_to_styles_def style_buckets_def
          located_of_style_append located_of_style_same located_of_style_other py_inj)
  next
    case 2
    then show ?thesis
      by (simp add: transform_alignment_to_styles_def style_buckets_def
          located_of_style_append located_of_style_same located_of_style_other py_inj)
  next
    case 3
    then show ?thesis
      by (simp add: transform_alignment_to_styles_def style_buckets_def
          located_of_style_append located_of_style_same located_of_style_other py_inj)
  qed
qed

lemma left_to_right_nth:
  "left_to_right L \<longleftrightarrow>
     (\<forall>i. Suc i < length L \<longrightarrow>
        ls_offset (L ! i) + int (ls_length (L ! i)) \<le> ls_offset (L ! Suc i))"
proof (induction L rule: left_to_right.induct)
  case 1
  show ?case by simp
next
  case (2 s)
  show ?case by simp
next
  case (3 s s' ss)
  show ?case
  proof
    assume a: "left_to_right (s # s' # ss)"
    show "\<forall>i. Suc i < length (s # s' # ss) \<longrightarrow>
        ls_offset ((s # s' # ss) ! i) + int (ls_length ((s # s' # ss) ! i))
          \<le> ls_offset ((s # s' # ss) ! Suc i)"
    proof (intro allI impI)
      fix i assume i: "Suc i < length (s # s' # ss)"
      show "ls_offset ((s # s' # ss) ! i) + int (ls_length ((s # s' # ss) ! i))
          \<le> ls_offset ((s # s' # ss) ! Suc i)"
      proof (cases i)
        case 0
        with a show ?thesis by simp
      next
        case (Suc j)
        with a i 3 show ?thesis by simp
      qed
    qed
  next
    assume a: "\<forall>i. Suc i < length (s # s' # ss) \<longrightarrow>
        ls_offset ((s # s' # ss) ! i) + int (ls_length ((s # s' # ss) ! i))
          \<le> ls_offset ((s # s' # ss) ! Suc i)"
    from a[rule_format, of 0] have h: "ls_offset s + int (ls_length s) \<le> ls_offset s'"
      by simp
    have "\<forall>i. Suc i < length (s' # ss) \<longrightarrow>
        ls_offset ((s' # ss) ! i) + int (ls_length ((s' # ss) ! i)) \<le> ls_offset ((s' # ss) ! Suc i)"
    proof (intro allI impI)
      fix i assume "Suc i < length (s' # ss)"
      with a[rule_format, of "Suc i"] show
        "ls_offset ((s' # ss) ! i) + int (ls_length ((s' # ss) ! i)) \<le> ls_offset ((s' # ss) ! Suc i)"
        by simp
    qed
    with 3 h show "left_to_right (s # s' # ss)" by simp
  qed
qed

section \<open>Claims on span location\<close>

text \<open>
  C1, as stated: the located spans of one bucket are placed left to right without
  overlap.  It fails: with translated text \<open>ab\<close> and bold entries \<open>x****b\<close>, \<open>y****a\<close> the
  first span is placed at offset 1 (end 2); the second target does not occur from
  position 2 on, so the whole-text search of \<open>_find_from\<close> places it at offset 0.
\<close>

theorem transform_alignment_not_left_to_right:
  "transform_alignment_to_styles ascii_lower
       [py ''bold'' \<mapsto> [py ''x****b'', py ''y****a'']] (py ''ab'') False =
     [\<lparr>ls_style = py ''BOLD'', ls_source = py ''x'', ls_translated_text = py ''b'',
        ls_offset = 1, ls_length = 1\<rparr>,
      \<lparr>ls_style = py ''BOLD'', ls_source = py ''y'', ls_translated_text = py ''a'',
        ls_offset = 0, ls_length = 1\<rparr>] \<and>
   \<not> left_to_right (located_of_style (py ''BOLD'')
        (transform_alignment_to_styles ascii_lower
           [py ''bold'' \<mapsto> [py ''x****b'', py ''y****a'']] (py ''ab'') False))"
  by code_simp

text \<open>
  C1, amended.  Let \<open>L\<close> be the located spans of one style bucket, in output order.  For
  two consecutive spans \<open>L ! i\<close> and \<open>L ! Suc i\<close>, the later one comes from an entry of that
  bucket with a non-empty target: it carries the entry's source and the target's length,
  and its offset is what \<open>_find_from\<close> returns for the target with the cursor at the end
  (offset + length) of the earlier span.  If the target occurs at or after that end (in
  the text as it is, or in the lower-cased text against the lower-cased target), the later
  span starts at or after that end.  Otherwise it sits at the first case-sensitive
  occurrence of the target in the whole translated text, which starts strictly before
  that end, and its text is the target itself.  This holds for every lower-casing
  function.
\<close>

theorem transform_alignment_spans_placed:
  assumes "(key, st) \<in> set style_buckets"
    and "L = located_of_style st (transform_alignment_to_styles lower alignment hay keep)"
    and "Suc i < length L"
  shows "int (span_end (L ! i)) = ls_offset (L ! i) + int (ls_length (L ! i)) \<and>
    (\<exists>item \<in> set (get_list alignment key).
       placed_from lower hay (span_end (L ! i)) item (L ! Suc i) \<and>
       (if forward_found lower hay (snd (split_pair item)) (span_end (L ! i))
        then ls_offset (L ! i) + int (ls_length (L ! i)) \<le> ls_offset (L ! Suc i)
        else ls_offset (L ! Suc i) = py_find hay (snd (split_pair item)) 0 \<and>
             ls_offset (L ! Suc i) < ls_offset (L ! i) + int (ls_length (L ! i)) \<and>
             ls_translated_text (L ! Suc i) = snd (split_pair item)))"
proof -
  let ?items = "get_list alignment key"
  let ?B = "transform_bucket lower st hay keep ?items 0"
  have L: "L = filter (\<lambda>s. ls_offset s \<noteq> -1) ?B"
    using assms(2) located_of_style_bucket[OF assms(1)] by simp
  have "placed_chain lower hay ?items 0 L"
    unfolding L by (rule transform_bucket_chain) simp
  from placed_chain_nth[OF this assms(3)] obtain item where
    mem: "item \<in> set ?items" and
    pl: "placed_from lower hay (span_end (L ! i)) item (L ! Suc i)"
    by (auto simp: list_ex_iff)
  have "L ! i \<in> set L" using assms(3) by simp
  then have "L ! i \<in> set ?B" "ls_offset (L ! i) \<noteq> -1" unfolding L by simp_all
  then have "0 \<le> ls_offset (L ! i)" by (rule transform_bucket_offset)
  then have e: "int (span_end (L ! i)) = ls_offset (L ! i) + int (ls_length (L ! i))"
    by (simp add: span_end_def)
  have "L ! Suc i \<in> set L" using assms(3) by simp
  then have loc: "ls_offset (L ! Suc i) \<noteq> -1" unfolding L by simp
  let ?tgt = "snd (split_pair item)"
  let ?c = "span_end (L ! i)"
  from pl have off: "ls_offset (L ! Suc i) = find_from lower hay ?tgt ?c"
    and tx: "ls_translated_text (L ! Suc i) =
        py_slice hay (ls_offset (L ! Suc i)) (ls_offset (L ! Suc i) + int (length ?tgt))"
    by (simp_all add: placed_from_def)
  have "if forward_found lower hay ?tgt ?c
        then ls_offset (L ! i) + int (ls_length (L ! i)) \<le> ls_offset (L ! Suc i)
        else ls_offset (L ! Suc i) = py_find hay ?tgt 0 \<and>
             ls_offset (L ! Suc i) < ls_offset (L ! i) + int (ls_length (L ! i)) \<and>
             ls_translated_text (L ! Suc i) = ?tgt"
  proof (cases "forward_found lower hay ?tgt ?c")
    case True
    from find_from_forward[OF True] off e True show ?thesis by simp
  next
    case False
    from find_from_fallback[OF False] off
    have p0: "ls_offset (L ! Suc i) = py_find hay ?tgt 0" by simp
    from loc off have "find_from lower hay ?tgt ?c \<noteq> -1" by simp
    from find_from_fallback_before[OF False this] off e
    have lt: "ls_offset (L ! Suc i) < ls_offset (L ! i) + int (ls_length (L ! i))" by simp
    from loc p0 have "py_find hay ?tgt 0 \<noteq> -1" by simp
    from py_find_found(4)[OF this] tx p0
    have "ls_translated_text (L ! Suc i) = ?tgt" by simp
    with False p0 lt show ?thesis by simp
  qed
  with e mem pl show ?thesis by blast
qed

text \<open>The spec's example: a duplicate target is placed past the first match (offsets 0
  and 12 in \<open>Sucre, Sel, Sucre\<close>).\<close>

theorem transform_alignment_spans_placed_witness:
  "(py ''bold'', py ''BOLD'') \<in> set style_buckets \<and>
   Suc 0 < length (located_of_style (py ''BOLD'') (transform_alignment_to_styles ascii_lower
       [py ''bold'' \<mapsto> [py ''Sugar****Sucre'', py ''Sugar****Sucre'']]
       (py ''Sucre, Sel, Sucre'') False)) \<and>
   map ls_offset (located_of_style (py ''BOLD'') (transform_alignment_to_styles ascii_lower
       [py ''bold'' \<mapsto> [py ''Sugar****Sucre'', py ''Sugar****Sucre'']]
       (py ''Sucre, Sel, Sucre'') False)) = [0, 12] \<and>
   (\<exists>item \<in> set (get_list [py ''bold'' \<mapsto> [py ''Sugar****Sucre'', py ''Sugar****Sucre'']]
                     (py ''bold'')).
      placed_from ascii_lower (py ''Sucre, Sel, Sucre'') 5 item
        (located_of_style (py ''BOLD'') (transform_alignment_to_styles ascii_lower
           [py ''bold'' \<mapsto> [py ''Sugar****Sucre'', py ''Sugar****Sucre'']]
           (py ''Sucre, Sel, Sucre'') False) ! Suc 0) \<and>
      forward_found ascii_lower (py ''Sucre, Sel, Sucre'') (snd (split_pair item)) 5)"
proof -
  let ?L = "located_of_style (py ''BOLD'') (transform_alignment_to_styles ascii_lower
       [py ''bold'' \<mapsto> [py ''Sugar****Sucre'', py ''Sugar****Sucre'']]
       (py ''Sucre, Sel, Sucre'') False)"
  have mem: "(py ''bold'', py ''BOLD'') \<in> set style_buckets"
    by (simp add: style_buckets_def)
  have len: "Suc 0 < length ?L" by code_simp
  have offs: "map ls_offset ?L = [0, 12]" by code_simp
  have e: "span_end (?L ! 0) = 5" by code_simp
  have items: "get_list [py ''bold'' \<mapsto> [py ''Sugar****Sucre'', py ''Sugar****Sucre'']]
      (py ''bold'') = [py ''Sugar****Sucre'', py ''Sugar****Sucre'']"
    by (simp add: get_list_def)
  have ff: "forward_found ascii_lower (py ''Sucre, Sel, Sucre'')
      (snd (split_pair (py ''Sugar****Sucre''))) 5" by code_simp
  from transform_alignment_spans_placed[OF mem refl len]
  obtain item where
    "item \<in> set (get_list [py ''bold'' \<mapsto> [py ''Sugar****Sucre'', py ''Sugar****Sucre'']]
        (py ''bold''))"
    "placed_from ascii_lower (py ''Sucre, Sel, Sucre'') (span_end (?L ! 0)) item (?L ! Suc 0)"
    by blast
  then have "item \<in> set (get_list [py ''bold'' \<mapsto> [py ''Sugar****Sucre'', py ''Sugar****Sucre'']]
        (py ''bold'')) \<and>
      placed_from ascii_lower (py ''Sucre, Sel, Sucre'') 5 item (?L ! Suc 0) \<and>
      forward_found ascii_lower (py ''Sucre, Sel, Sucre'') (snd (split_pair item)) 5"
    using e ff items by auto
  then show ?thesis using mem len offs by blast
qed

text \<open>
  C6, as stated: offset 8.  In \<open>Le mot **Gras**\<close> the text \<open>Gras\<close> starts at index 9
  (seven characters \<open>Le mot \<close>, then two asterisks), so the span with offset 8 is not
  what the function returns.
\<close>

theorem transform_alignment_example_not_offset_8:
  "transform_alignment_to_styles ascii_lower
     [py ''bold'' \<mapsto> [py ''Bold****Gras''], py ''italics'' \<mapsto> [], py ''underline'' \<mapsto> []]
     (py ''Le mot **Gras**'') False
   \<noteq> [\<lparr>ls_style = py ''BOLD'', ls_source = py ''Bold'', ls_translated_text = py ''Gras'',
        ls_offset = 8, ls_length = 4\<rparr>]"
  by code_simp

text \<open>
  C6, amended: for translated text \<open>Le mot **Gras**\<close> and alignment result
  \<open>{bold: ["Bold****Gras"], italics: [], underline: []}\<close>, the function returns exactly one
  located span with style BOLD, source \<open>Bold\<close>, translated text \<open>Gras\<close>, offset 9 and
  length 4 (whatever the lower-casing function: the first, case-sensitive search
  succeeds).
\<close>

theorem transform_alignment_example:
  "transform_alignment_to_styles lower
     [py ''bold'' \<mapsto> [py ''Bold****Gras''], py ''italics'' \<mapsto> [], py ''underline'' \<mapsto> []]
     (py ''Le mot **Gras**'') False
   = [\<lparr>ls_style = py ''BOLD'', ls_source = py ''Bold'', ls_translated_text = py ''Gras'',
        ls_offset = 9, ls_length = 4\<rparr>]"
  by code_simp

section \<open>Term extraction and pairing\<close>

lemma zip_as_nth:
  "zip xs ys = map (\<lambda>i. (xs ! i, ys ! i)) [0..<min (length xs) (length ys)]"
  by (rule nth_equalityI) auto

lemma concat_map_if:
  "concat (map (\<lambda>i. if P i then [f i] else []) is) = map f (filter P is)"
  by (induction "is") auto

lemma pair_comprehension:
  "[srcs ! i @ marker @ items ! i. i \<leftarrow> [0..<min (length items) (length srcs)], items ! i \<noteq> []] =
     map (\<lambda>(s, t). s @ marker @ t) (filter (\<lambda>(s, t). t \<noteq> []) (zip srcs items))"
  by (simp add: zip_as_nth[of srcs items] concat_map_if filter_map comp_def min.commute)

lemma pair_bucket_eq:
  "pair_bucket items srcs =
     (if list_ex has_marker items then items
      else map (\<lambda>(s, t). s @ marker @ t) (filter (\<lambda>(s, t). t \<noteq> []) (zip srcs items)))"
  by (cases "items = []") (simp_all add: pair_bucket_def Let_def pair_comprehension)

lemma get_list_upd: "get_list (m(k \<mapsto> v)) k' = (if k' = k then v else get_list m k')"
  by (simp add: get_list_def)

lemma bucket_loop_get_dedupe:
  "get_list (bucket_loop cf True items out seen) k =
     get_list out k @
       keep_first cf (seen k)
         (map (\<lambda>t. snd (snd t)) (filter (\<lambda>t. style_key (fst t) = k) items))"
proof (induction items arbitrary: out seen)
  case Nil
  show ?case by simp
next
  case (Cons it rest)
  obtain style pos chunk where it: "it = (style, pos, chunk)" by (cases it) auto
  show ?case
  proof (cases "cf chunk \<in> seen (style_key style)")
    case True
    then have step: "bucket_loop cf True (it # rest) out seen =
        bucket_loop cf True rest out seen"
      unfolding it by (simp add: Let_def)
    show ?thesis
      unfolding step Cons.IH using True by (auto simp: it)
  next
    case False
    then have step: "bucket_loop cf True (it # rest) out seen =
        bucket_loop cf True rest
          (out(style_key style \<mapsto> get_list out (style_key style) @ [chunk]))
          (seen(style_key style := insert (cf chunk) (seen (style_key style))))"
      unfolding it by (simp add: Let_def)
    show ?thesis
      unfolding step Cons.IH
      apply (simp only: get_list_upd)
      using False apply (auto simp: it)
      done
  qed
qed

lemma bucket_loop_get_plain:
  "get_list (bucket_loop cf False items out seen) k =
     get_list out k @ map (\<lambda>t. snd (snd t)) (filter (\<lambda>t. style_key (fst t) = k) items)"
proof (induction items arbitrary: out seen)
  case Nil
  show ?case by simp
next
  case (Cons it rest)
  obtain style pos chunk where it: "it = (style, pos, chunk)" by (cases it) auto
  have step: "bucket_loop cf False (it # rest) out seen =
      bucket_loop cf False rest
        (out(style_key style \<mapsto> get_list out (style_key style) @ [chunk])) seen"
    unfolding it by (simp add: Let_def)
  show ?case
    unfolding step Cons.IH
    apply (simp only: get_list_upd)
    apply (simp add: it)
    done
qed

lemma bucket_loop_get:
  "get_list (bucket_loop cf dedupe items out seen) k =
     get_list out k @
       (if dedupe
        then keep_first cf (seen k)
               (map (\<lambda>t. snd (snd t)) (filter (\<lambda>t. style_key (fst t) = k) items))
        else map (\<lambda>t. snd (snd t)) (filter (\<lambda>t. style_key (fst t) = k) items))"
  by (cases dedupe) (simp_all add: bucket_loop_get_dedupe bucket_loop_get_plain)

text \<open>The chunks that reach the bucket of key k, in the order of the second loop.\<close>

lemma extract_bucket:
  "get_list (extract_words_by_style upper cf payload snap dedupe) k =
     (let chunks = map (\<lambda>t. snd (snd t)) (filter (\<lambda>t. style_key (fst t) = k)
            (sort_key (\<lambda>t. fst (snd t))
               (List.map_filter (span_item upper (source_of payload)) (styles_of payload))))
      in if dedupe then keep_first cf {} chunks else chunks)"
proof -
  have e: "get_list [py ''bold'' \<mapsto> [], py ''italics'' \<mapsto> [], py ''underline'' \<mapsto> []] k
      = ([] :: pystr list)"
    by (simp add: get_list_def)
  show ?thesis
    unfolding extract_words_by_style_def Let_def bucket_loop_get e by simp
qed

lemma keep_first_subset: "set (keep_first cf seen ts) \<subseteq> set ts"
  by (induction ts arbitrary: seen) auto

lemma keep_first_covers:
  "t \<in> set ts \<Longrightarrow> cf t \<notin> seen \<Longrightarrow> \<exists>t' \<in> set (keep_first cf seen ts). cf t' = cf t"
proof (induction ts arbitrary: seen)
  case Nil
  then show ?case by simp
next
  case (Cons a ts)
  show ?case
  proof (cases "cf a = cf t")
    case True
    with Cons.prems show ?thesis by auto
  next
    case False
    with Cons.prems have "t \<in> set ts" by auto
    show ?thesis
    proof (cases "cf a \<in> seen")
      case True
      with Cons.IH[OF \<open>t \<in> set ts\<close> Cons.prems(2)] show ?thesis by simp
    next
      case F2: False
      from False Cons.prems(2) have "cf t \<notin> insert (cf a) seen" by auto
      from Cons.IH[OF \<open>t \<in> set ts\<close> this] F2 show ?thesis by auto
    qed
  qed
qed

lemma set_map_filter: "set (List.map_filter f xs) = {y. \<exists>x \<in> set xs. f x = Some y}"
  by (induction xs) (auto simp: List.map_filter_simps split: option.splits)

lemma span_item_Some:
  "span_item upper src s = Some it \<longleftrightarrow>
     (0 < sp_length s \<and> normalize_style_name upper (sp_style s) \<in> set style_names \<and>
      span_chunk src s \<noteq> [] \<and>
      it = (normalize_style_name upper (sp_style s), sp_offset s, span_chunk src s))"
  by (auto simp: span_item_def span_chunk_def Let_def)

lemma bucket_items_set:
  "set (map (\<lambda>t. snd (snd t)) (filter (\<lambda>t. style_key (fst t) = k)
            (sort_key (\<lambda>t. fst (snd t)) (List.map_filter (span_item upper src) spans)))) =
   {span_chunk src s | s. s \<in> set spans \<and> 0 < sp_length s \<and>
       normalize_style_name upper (sp_style s) \<in> set style_names \<and> span_chunk src s \<noteq> [] \<and>
       span_key upper s = k}"
  (is "?A = ?B")
proof
  show "?A \<subseteq> ?B"
    by (auto simp: set_map_filter span_item_Some span_key_def)
  show "?B \<subseteq> ?A"
  proof
    fix t assume "t \<in> ?B"
    then obtain s where s: "s \<in> set spans" "0 < sp_length s"
      "normalize_style_name upper (sp_style s) \<in> set style_names" "span_chunk src s \<noteq> []"
      "span_key upper s = k" "t = span_chunk src s" by blast
    let ?it = "(normalize_style_name upper (sp_style s), sp_offset s, span_chunk src s)"
    have "span_item upper src s = Some ?it" using s by (simp add: span_item_Some)
    with s(1) have "?it \<in> set (List.map_filter (span_item upper src) spans)"
      by (auto simp: set_map_filter)
    with s(5,6) show "t \<in> ?A"
      by (auto simp: span_key_def image_iff intro!: bexI[of _ ?it])
  qed
qed

lemma py_slice_in_range:
  assumes "0 \<le> i" "0 \<le> n" "i + n \<le> int (length xs)"
  shows "py_slice xs i (i + n) = take (nat n) (drop (nat i) xs)"
    and "length (py_slice xs i (i + n)) = nat n"
  using assms by (auto simp: py_slice_def Let_def min_def)

lemma py_slice_past_end:
  assumes "0 \<le> i" "int (length xs) < i + n"
  shows "py_slice xs i (i + n) = drop (nat i) xs"
  using assms by (auto simp: py_slice_def Let_def min_def)

lemma py_slice_from_end:
  assumes "int (length xs) \<le> i"
  shows "py_slice xs i j = []"
  using assms by (auto simp: py_slice_def Let_def min_def max_def)

lemma map_filter_removeAll:
  "f s = None \<Longrightarrow> List.map_filter f (removeAll s xs) = List.map_filter f xs"
  by (induction xs) (auto split: option.splits)

section \<open>Claims on pairing and extraction\<close>

text \<open>
  C8: for each of the three style buckets, \<open>_pair_positionally_if_needed\<close> returns the
  bucket unchanged when at least one entry contains the marker; when no entry does, it
  returns the pairs \<open>source****target\<close> built by zipping the originally extracted terms of
  that style with the bucket's entries index for index, cut to the shorter of the two,
  leaving out every pair whose target entry is empty.  The result has the three keys and
  no other.
\<close>

theorem pair_positionally_buckets:
  assumes "key \<in> set (map fst style_buckets)"
  shows "pair_positionally_if_needed alignment source_terms key =
      Some (if list_ex has_marker (get_list alignment key) then get_list alignment key
            else map (\<lambda>(s, t). s @ marker @ t)
                   (filter (\<lambda>(s, t). t \<noteq> [])
                      (zip (get_list source_terms key) (get_list alignment key))))
    \<and> dom (pair_positionally_if_needed alignment source_terms) = set (map fst style_buckets)"
proof -
  from assms consider "key = py ''bold''" | "key = py ''italics''" | "key = py ''underline''"
    by (auto simp: style_buckets_def)
  then have "pair_positionally_if_needed alignment source_terms key =
      Some (pair_bucket (get_list alignment key) (get_list source_terms key))"
    by cases (simp_all add: pair_positionally_if_needed_def py_inj)
  moreover have "dom (pair_positionally_if_needed alignment source_terms) =
      set (map fst style_buckets)"
    by (auto simp: pair_positionally_if_needed_def style_buckets_def)
  ultimately show ?thesis by (simp add: pair_bucket_eq)
qed

text \<open>The spec's example, with an empty target added: \<open>Sugar\<close>, \<open>Pepper\<close>, \<open>Salt\<close> against
  \<open>Sucre\<close>, the empty string, \<open>Sel\<close>.\<close>

theorem pair_positionally_buckets_witness:
  "py ''bold'' \<in> set (map fst style_buckets) \<and>
   pair_positionally_if_needed
     [py ''bold'' \<mapsto> [py ''Sucre'', py '''', py ''Sel'']]
     [py ''bold'' \<mapsto> [py ''Sugar'', py ''Pepper'', py ''Salt'']] (py ''bold'')
   = Some [py ''Sugar****Sucre'', py ''Salt****Sel'']"
proof -
  have mem: "py ''bold'' \<in> set (map fst style_buckets)"
    by (simp add: style_buckets_def)
  have rhs: "(if list_ex has_marker
                  (get_list [py ''bold'' \<mapsto> [py ''Sucre'', py '''', py ''Sel'']] (py ''bold''))
       then get_list [py ''bold'' \<mapsto> [py ''Sucre'', py '''', py ''Sel'']] (py ''bold'')
       else map (\<lambda>(s, t). s @ marker @ t)
              (filter (\<lambda>(s, t). t \<noteq> [])
                 (zip (get_list [py ''bold'' \<mapsto> [py ''Sugar'', py ''Pepper'', py ''Salt'']]
                         (py ''bold''))
                      (get_list [py ''bold'' \<mapsto> [py ''Sucre'', py '''', py ''Sel'']]
                         (py ''bold'')))))
      = [py ''Sugar****Sucre'', py ''Salt****Sel'']"
    by code_simp
  from pair_positionally_buckets[OF mem,
      of "[py ''bold'' \<mapsto> [py ''Sucre'', py '''', py ''Sel'']]"
         "[py ''bold'' \<mapsto> [py ''Sugar'', py ''Pepper'', py ''Salt'']]"]
  have "pair_positionally_if_needed
     [py ''bold'' \<mapsto> [py ''Sucre'', py '''', py ''Sel'']]
     [py ''bold'' \<mapsto> [py ''Sugar'', py ''Pepper'', py ''Salt'']] (py ''bold'')
   = Some [py ''Sugar****Sucre'', py ''Salt****Sel'']"
    unfolding rhs by simp
  with mem show ?thesis by simp
qed

text \<open>
  C7: every term of a bucket is the slice \<open>src[offset : offset + length]\<close> of a span of
  the payload with positive length whose style has the bucket's key; and for every span
  of the payload with a recognised style, \<open>0 \<le> offset\<close>, \<open>0 < length\<close> and
  \<open>offset + length \<le> len(src)\<close>, that slice is the substring of exactly \<open>length\<close> characters
  starting at \<open>offset\<close>, nothing added or removed, and it is the term placed in the bucket
  for the span: it is in the bucket when deduplication is off, and with deduplication on
  the bucket holds a term with the same case-folded form.
\<close>

theorem extract_terms_verbatim:
  "(\<forall>t \<in> set (get_list (extract_words_by_style upper casefold payload snap dedupe) k).
      \<exists>s \<in> set (styles_of payload).
        0 < sp_length s \<and> span_key upper s = k \<and>
        t = py_slice (source_of payload) (sp_offset s) (sp_offset s + sp_length s)) \<and>
   (\<forall>s \<in> set (styles_of payload).
      0 \<le> sp_offset s \<and> 0 < sp_length s \<and>
      sp_offset s + sp_length s \<le> int (length (source_of payload)) \<and>
      normalize_style_name upper (sp_style s) \<in> set style_names \<longrightarrow>
        py_slice (source_of payload) (sp_offset s) (sp_offset s + sp_length s) =
          take (nat (sp_length s)) (drop (nat (sp_offset s)) (source_of payload)) \<and>
        int (length (take (nat (sp_length s)) (drop (nat (sp_offset s)) (source_of payload)))) =
          sp_length s \<and>
        (\<not> dedupe \<longrightarrow>
           take (nat (sp_length s)) (drop (nat (sp_offset s)) (source_of payload))
             \<in> set (get_list (extract_words_by_style upper casefold payload snap dedupe)
                      (span_key upper s))) \<and>
        (\<exists>t \<in> set (get_list (extract_words_by_style upper casefold payload snap dedupe)
                      (span_key upper s)).
           casefold t =
             casefold (take (nat (sp_length s)) (drop (nat (sp_offset s)) (source_of payload)))))"
proof (intro conjI ballI impI)
  let ?src = "source_of payload"
  let ?out = "extract_words_by_style upper casefold payload snap dedupe"
  let ?chunks = "\<lambda>k. map (\<lambda>t. snd (snd t)) (filter (\<lambda>t. style_key (fst t) = k)
            (sort_key (\<lambda>t. fst (snd t))
               (List.map_filter (span_item upper ?src) (styles_of payload))))"
  have out: "\<And>k. get_list ?out k = (if dedupe then keep_first casefold {} (?chunks k) else ?chunks k)"
    by (simp add: extract_bucket Let_def)
  have outT: "get_list ?out k = keep_first casefold {} (?chunks k)" if dedupe for k
    using that out[of k] by (simp only: if_True)
  have outF: "get_list ?out k = ?chunks k" if "\<not> dedupe" for k
    using that out[of k] by (simp only: if_False)
  have sub: "set (get_list ?out k) \<subseteq> set (?chunks k)" for k
  proof (cases dedupe)
    case True
    show ?thesis by (simp only: outT[OF True] keep_first_subset)
  next
    case False
    show ?thesis by (simp only: outF[OF False] subset_refl)
  qed
  {
    fix t assume "t \<in> set (get_list ?out k)"
    with sub[of k] have "t \<in> set (?chunks k)" by blast
    then show "\<exists>s \<in> set (styles_of payload).
        0 < sp_length s \<and> span_key upper s = k \<and>
        t = py_slice ?src (sp_offset s) (sp_offset s + sp_length s)"
      unfolding bucket_items_set by (auto simp: span_chunk_def)
  }
  fix s
  assume s: "s \<in> set (styles_of payload)"
    and h: "0 \<le> sp_offset s \<and> 0 < sp_length s \<and>
      sp_offset s + sp_length s \<le> int (length ?src) \<and>
      normalize_style_name upper (sp_style s) \<in> set style_names"
  let ?sub = "take (nat (sp_length s)) (drop (nat (sp_offset s)) ?src)"
  from h have r: "0 \<le> sp_offset s" "0 \<le> sp_length s"
    "sp_offset s + sp_length s \<le> int (length ?src)" by simp_all
  from py_slice_in_range[OF r] have
    sl: "py_slice ?src (sp_offset s) (sp_offset s + sp_length s) = ?sub"
    and ln: "length (py_slice ?src (sp_offset s) (sp_offset s + sp_length s)) = nat (sp_length s)"
    by simp_all
  show "py_slice ?src (sp_offset s) (sp_offset s + sp_length s) = ?sub" by (rule sl)
  from ln sl h show "int (length ?sub) = sp_length s" by simp
  from ln h have ne: "span_chunk ?src s \<noteq> []" by (auto simp: span_chunk_def)
  have ch: "span_chunk ?src s = ?sub" by (simp add: span_chunk_def sl)
  have mem: "?sub \<in> set (?chunks (span_key upper s))"
    unfolding bucket_items_set mem_Collect_eq
  proof (rule exI[of _ s], intro conjI)
    show "?sub = span_chunk ?src s" by (simp add: ch)
    show "s \<in> set (styles_of payload)" by (rule s)
    show "0 < sp_length s" using h by simp
    show "normalize_style_name upper (sp_style s) \<in> set style_names" using h by simp
    show "span_chunk ?src s \<noteq> []" by (rule ne)
    show "span_key upper s = span_key upper s" by simp
  qed
  {
    assume nd: "\<not> dedupe"
    show "?sub \<in> set (get_list ?out (span_key upper s))"
      unfolding outF[OF nd] by (rule mem)
  }
  show "\<exists>t \<in> set (get_list ?out (span_key upper s)). casefold t = casefold ?sub"
  proof (cases dedupe)
    case True
    have "\<exists>t \<in> set (keep_first casefold {} (?chunks (span_key upper s))).
        casefold t = casefold ?sub"
      by (rule keep_first_covers[OF mem]) simp
    then show ?thesis unfolding outT[OF True] .
  next
    case False
    have "\<exists>t \<in> set (?chunks (span_key upper s)). casefold t = casefold ?sub"
      using mem by blast
    then show ?thesis unfolding outF[OF False] .
  qed
qed

text \<open>The spec's scenario: source \<open>The **Bold** word\<close> with a BOLD span over \<open>Bold\<close>, and an
  italic span over a blank and two asterisks, kept as they are.\<close>

theorem extract_terms_verbatim_witness:
  "\<lparr>sp_offset = 3, sp_length = 3, sp_style = py ''italics''\<rparr> \<in> set (styles_of
      \<lparr>p_value = Some (py ''The **Bold** word''),
       p_styles = Some [\<lparr>sp_offset = 6, sp_length = 4, sp_style = py ''BOLD''\<rparr>,
                        \<lparr>sp_offset = 3, sp_length = 3, sp_style = py ''italics''\<rparr>]\<rparr>) \<and>
   normalize_style_name ascii_upper (py ''italics'') \<in> set style_names \<and>
   (3::int) + 3 \<le> int (length (py ''The **Bold** word'')) \<and>
   py '' **'' \<in> set (get_list (extract_words_by_style ascii_upper ascii_lower
      \<lparr>p_value = Some (py ''The **Bold** word''),
       p_styles = Some [\<lparr>sp_offset = 6, sp_length = 4, sp_style = py ''BOLD''\<rparr>,
                        \<lparr>sp_offset = 3, sp_length = 3, sp_style = py ''italics''\<rparr>]\<rparr>
      True False) (py ''italics'')) \<and>
   get_list (extract_words_by_style ascii_upper ascii_lower
      \<lparr>p_value = Some (py ''The **Bold** word''),
       p_styles = Some [\<lparr>sp_offset = 6, sp_length = 4, sp_style = py ''BOLD''\<rparr>,
                        \<lparr>sp_offset = 3, sp_length = 3, sp_style = py ''italics''\<rparr>]\<rparr>
      True False) (py ''bold'') = [py ''Bold'']"
proof -
  let ?s = "\<lparr>sp_offset = 3, sp_length = 3, sp_style = py ''italics''\<rparr>"
  let ?p = "\<lparr>p_value = Some (py ''The **Bold** word''),
       p_styles = Some [\<lparr>sp_offset = 6, sp_length = 4, sp_style = py ''BOLD''\<rparr>, ?s]\<rparr>"
  have m: "?s \<in> set (styles_of ?p)" by (simp add: styles_of_def)
  have n: "normalize_style_name ascii_upper (py ''italics'') \<in> set style_names" by code_simp
  have l: "(3::int) + 3 \<le> int (length (py ''The **Bold** word''))" by (simp add: py_def)
  have src: "source_of ?p = py ''The **Bold** word''" by (simp add: source_of_def)
  have k: "span_key ascii_upper ?s = py ''italics''" by code_simp
  have sub: "take 3 (drop 3 (py ''The **Bold** word'')) = py '' **''" by code_simp
  have b: "get_list (extract_words_by_style ascii_upper ascii_lower ?p True False) (py ''bold'')
      = [py ''Bold'']" by code_simp
  from extract_terms_verbatim[of ascii_upper ascii_lower ?p True False "py ''italics''"]
  have "\<forall>s \<in> set (styles_of ?p).
      0 \<le> sp_offset s \<and> 0 < sp_length s \<and>
      sp_offset s + sp_length s \<le> int (length (source_of ?p)) \<and>
      normalize_style_name ascii_upper (sp_style s) \<in> set style_names \<longrightarrow>
        (\<not> False \<longrightarrow>
           take (nat (sp_length s)) (drop (nat (sp_offset s)) (source_of ?p))
             \<in> set (get_list (extract_words_by_style ascii_upper ascii_lower ?p True False)
                      (span_key ascii_upper s)))"
    by blast
  from this[rule_format, OF m] n l
  have "py '' **'' \<in> set (get_list (extract_words_by_style ascii_upper ascii_lower ?p True False)
      (py ''italics''))"
    unfolding src by (simp add: k sub)
  with m n l b show ?thesis by blast
qed

text \<open>
  C10, as stated: a span reaching past the end of the source text always has its
  truncated suffix in the bucket.  It fails when deduplication (the default of
  \<open>extract_words_by_style\<close>, and what its caller passes) is on: for the source \<open>abAB\<close> with
  the BOLD spans (0, 2) and (2, 5), the second span's truncated suffix \<open>AB\<close> case-folds to
  the already seen \<open>ab\<close> and is left out.
\<close>

theorem extract_truncated_suffix_deduplicated:
  "py_slice (py ''abAB'') 2 (2 + 5) = py ''AB'' \<and>
   get_list (extract_words_by_style ascii_upper ascii_lower
      \<lparr>p_value = Some (py ''abAB''),
       p_styles = Some [\<lparr>sp_offset = 0, sp_length = 2, sp_style = py ''BOLD''\<rparr>,
                        \<lparr>sp_offset = 2, sp_length = 5, sp_style = py ''BOLD''\<rparr>]\<rparr>
      True True) (py ''bold'') = [py ''ab''] \<and>
   py ''AB'' \<notin> set (get_list (extract_words_by_style ascii_upper ascii_lower
      \<lparr>p_value = Some (py ''abAB''),
       p_styles = Some [\<lparr>sp_offset = 0, sp_length = 2, sp_style = py ''BOLD''\<rparr>,
                        \<lparr>sp_offset = 2, sp_length = 5, sp_style = py ''BOLD''\<rparr>]\<rparr>
      True True) (py ''bold''))"
  by code_simp

text \<open>
  C10, amended.  Take a span of the payload with positive length and a recognised
  style.  If \<open>0 \<le> offset < len(src) < offset + length\<close>, the span is neither skipped by the
  first loop nor an error: its chunk is the truncated suffix \<open>src[offset:]\<close>, not empty
  and strictly shorter than the declared length; the suffix is in the bucket of the
  span's style when deduplication is off, and with deduplication on either the suffix is
  in the bucket or the bucket holds another term with the same case-folded form.  If
  \<open>offset \<ge> len(src)\<close>, the span contributes nothing: the first loop appends no item for
  it, and the result is the result for the payload without the span.
\<close>

theorem extract_span_past_end:
  assumes "s \<in> set (styles_of payload)"
    and "0 < sp_length s"
    and "normalize_style_name upper (sp_style s) \<in> set style_names"
  shows "(0 \<le> sp_offset s \<and> sp_offset s < int (length (source_of payload)) \<and>
          int (length (source_of payload)) < sp_offset s + sp_length s \<longrightarrow>
            span_item upper (source_of payload) s =
              Some (normalize_style_name upper (sp_style s), sp_offset s,
                    drop (nat (sp_offset s)) (source_of payload)) \<and>
            drop (nat (sp_offset s)) (source_of payload) \<noteq> [] \<and>
            int (length (drop (nat (sp_offset s)) (source_of payload))) < sp_length s \<and>
            (\<not> dedupe \<longrightarrow>
               drop (nat (sp_offset s)) (source_of payload)
                 \<in> set (get_list (extract_words_by_style upper casefold payload snap dedupe)
                          (span_key upper s))) \<and>
            (drop (nat (sp_offset s)) (source_of payload)
                 \<in> set (get_list (extract_words_by_style upper casefold payload snap dedupe)
                          (span_key upper s)) \<or>
             dedupe \<and>
             (\<exists>t \<in> set (get_list (extract_words_by_style upper casefold payload snap dedupe)
                          (span_key upper s)).
                t \<noteq> drop (nat (sp_offset s)) (source_of payload) \<and>
                casefold t = casefold (drop (nat (sp_offset s)) (source_of payload))))) \<and>
         (int (length (source_of payload)) \<le> sp_offset s \<longrightarrow>
            span_item upper (source_of payload) s = None \<and>
            extract_words_by_style upper casefold
              (payload\<lparr>p_styles := Some (removeAll s (styles_of payload))\<rparr>) snap dedupe =
            extract_words_by_style upper casefold payload snap dedupe)"
proof (intro conjI impI)
  let ?src = "source_of payload"
  let ?out = "extract_words_by_style upper casefold payload snap dedupe"
  let ?k = "span_key upper s"
  let ?chunks = "map (\<lambda>t. snd (snd t)) (filter (\<lambda>t. style_key (fst t) = ?k)
            (sort_key (\<lambda>t. fst (snd t))
               (List.map_filter (span_item upper ?src) (styles_of payload))))"
  let ?suf = "drop (nat (sp_offset s)) ?src"
  have out: "get_list ?out ?k = (if dedupe then keep_first casefold {} ?chunks else ?chunks)"
    by (simp add: extract_bucket Let_def)
  have outT: "get_list ?out ?k = keep_first casefold {} ?chunks" if dedupe
    using that out by (simp only: if_True)
  have outF: "get_list ?out ?k = ?chunks" if "\<not> dedupe"
    using that out by (simp only: if_False)
  {
    assume h: "0 \<le> sp_offset s \<and> sp_offset s < int (length ?src) \<and>
          int (length ?src) < sp_offset s + sp_length s"
    then have r: "0 \<le> sp_offset s" "int (length ?src) < sp_offset s + sp_length s"
      by simp_all
    have ch: "span_chunk ?src s = ?suf"
      unfolding span_chunk_def by (rule py_slice_past_end[OF r])
    from h have le: "nat (sp_offset s) < length ?src" by linarith
    then have ln: "int (length ?suf) = int (length ?src) - sp_offset s"
      using h by (simp add: of_nat_diff)
    show ne: "?suf \<noteq> []" using le by simp
    show "int (length ?suf) < sp_length s" unfolding ln using h by linarith
    show "span_item upper ?src s =
        Some (normalize_style_name upper (sp_style s), sp_offset s, ?suf)"
      using assms(2,3) ne ch by (simp add: span_item_Some)
    have mem: "?suf \<in> set ?chunks"
      unfolding bucket_items_set mem_Collect_eq
    proof (rule exI[of _ s], intro conjI)
      show "?suf = span_chunk ?src s" by (simp add: ch)
      show "s \<in> set (styles_of payload)" by (rule assms(1))
      show "0 < sp_length s" by (rule assms(2))
      show "normalize_style_name upper (sp_style s) \<in> set style_names" by (rule assms(3))
      show "span_chunk ?src s \<noteq> []" using ne ch by simp
      show "span_key upper s = span_key upper s" by simp
    qed
    {
      assume nd: "\<not> dedupe"
      show "?suf \<in> set (get_list ?out ?k)" unfolding outF[OF nd] by (rule mem)
    }
    show "?suf \<in> set (get_list ?out ?k) \<or>
        dedupe \<and> (\<exists>t \<in> set (get_list ?out ?k). t \<noteq> ?suf \<and> casefold t = casefold ?suf)"
    proof (cases dedupe)
      case True
      have "\<exists>t \<in> set (keep_first casefold {} ?chunks). casefold t = casefold ?suf"
        by (rule keep_first_covers[OF mem]) simp
      then obtain t where t: "t \<in> set (get_list ?out ?k)" "casefold t = casefold ?suf"
        unfolding outT[OF True] by blast
      show ?thesis
      proof (cases "t = ?suf")
        case True
        with t(1) show ?thesis by simp
      next
        case False
        with t \<open>dedupe\<close> show ?thesis by blast
      qed
    next
      case False
      have "?suf \<in> set (get_list ?out ?k)" unfolding outF[OF False] by (rule mem)
      then show ?thesis ..
    qed
  }
  assume b: "int (length ?src) \<le> sp_offset s"
  have "span_chunk ?src s = []"
    unfolding span_chunk_def by (rule py_slice_from_end[OF b])
  then show none: "span_item upper ?src s = None"
    by (simp add: span_item_def span_chunk_def Let_def)
  have src': "source_of (payload\<lparr>p_styles := Some (removeAll s (styles_of payload))\<rparr>) = ?src"
    by (simp add: source_of_def)
  have sty': "styles_of (payload\<lparr>p_styles := Some (removeAll s (styles_of payload))\<rparr>) =
      removeAll s (styles_of payload)"
    by (simp add: styles_of_def)
  show "extract_words_by_style upper casefold
      (payload\<lparr>p_styles := Some (removeAll s (styles_of payload))\<rparr>) snap dedupe = ?out"
    by (simp only: extract_words_by_style_def Let_def src' sty'
        map_filter_removeAll[of "span_item upper ?src" s, OF none])
qed

text \<open>Source \<open>hello\<close>: the italic span (2, 5) gives \<open>llo\<close>; the bold span (7, 2) starts past the
  end and leaves the result as it is without it.\<close>

theorem extract_span_past_end_witness:
  "\<lparr>sp_offset = 2, sp_length = 5, sp_style = py ''italics''\<rparr> \<in> set (styles_of
      \<lparr>p_value = Some (py ''hello''),
       p_styles = Some [\<lparr>sp_offset = 7, sp_length = 2, sp_style = py ''BOLD''\<rparr>,
                        \<lparr>sp_offset = 2, sp_length = 5, sp_style = py ''italics''\<rparr>]\<rparr>) \<and>
   normalize_style_name ascii_upper (py ''italics'') \<in> set style_names \<and>
   drop 2 (py ''hello'') = py ''llo'' \<and>
   py ''llo'' \<in> set (get_list (extract_words_by_style ascii_upper ascii_lower
      \<lparr>p_value = Some (py ''hello''),
       p_styles = Some [\<lparr>sp_offset = 7, sp_length = 2, sp_style = py ''BOLD''\<rparr>,
                        \<lparr>sp_offset = 2, sp_length = 5, sp_style = py ''italics''\<rparr>]\<rparr>
      True False) (py ''italics'')) \<and>
   get_list (extract_words_by_style ascii_upper ascii_lower
      \<lparr>p_value = Some (py ''hello''),
       p_styles = Some [\<lparr>sp_offset = 7, sp_length = 2, sp_style = py ''BOLD''\<rparr>,
                        \<lparr>sp_offset = 2, sp_length = 5, sp_style = py ''italics''\<rparr>]\<rparr>
      True True) (py ''bold'') = []"
proof -
  let ?s = "\<lparr>sp_offset = 2, sp_length = 5, sp_style = py ''italics''\<rparr>"
  let ?p = "\<lparr>p_value = Some (py ''hello''),
       p_styles = Some [\<lparr>sp_offset = 7, sp_length = 2, sp_style = py ''BOLD''\<rparr>, ?s]\<rparr>"
  have m: "?s \<in> set (styles_of ?p)" by (simp add: styles_of_def)
  have n: "normalize_style_name ascii_upper (sp_style ?s) \<in> set style_names" by code_simp
  have l: "0 < sp_length ?s" by simp
  have src: "source_of ?p = py ''hello''" by (simp add: source_of_def)
  have len: "length (py ''hello'') = 5" by (simp add: py_def)
  have k: "span_key ascii_upper ?s = py ''italics''" by code_simp
  have sub: "drop 2 (py ''hello'') = py ''llo''" by code_simp
  have b: "get_list (extract_words_by_style ascii_upper ascii_lower ?p True True) (py ''bold'')
      = []" by code_simp
  from extract_span_past_end[OF m l n, where casefold = ascii_lower and snap = True
      and dedupe = False]
  have "drop (nat (sp_offset ?s)) (source_of ?p)
      \<in> set (get_list (extract_words_by_style ascii_upper ascii_lower ?p True False)
               (span_key ascii_upper ?s))"
    unfolding src by (simp add: len)
  then have "py ''llo'' \<in> set (get_list (extract_words_by_style ascii_upper ascii_lower ?p
      True False) (py ''italics''))"
    unfolding src k by (simp add: sub)
  with m n sub b show ?thesis by simp
qed

end
